theory Spec2Isabelle
  imports Main
begin

section \<open>Characters and character classes\<close>

text \<open>
  The analyzer works on Python \<open>str\<close> values. A selector or declaration text is modelled
  as a \<open>string\<close>; a \<open>char\<close> stands for the Unicode code point with the same number, so
  the model covers the texts whose code points are below 256. The classes below are
  the ones Python's \<open>re\<close> module and \<open>str\<close> methods use for \<open>str\<close> arguments,
  restricted to that range.
\<close>

definition code :: "char \<Rightarrow> nat" where
  "code c = of_char c"

definition is_space :: "char \<Rightarrow> bool" where
  \<comment> \<open>\<open>\s\<close> of a \<open>str\<close> pattern, which is also the whitespace of \<open>str.strip()\<close>:
      TAB..CR, FS..US, space, NEL, NBSP.\<close>
  "is_space c =
     (let n = code c
      in (9 \<le> n \<and> n \<le> 13) \<or> (28 \<le> n \<and> n \<le> 32) \<or> n = 133 \<or> n = 160)"

definition is_ascii_lower :: "char \<Rightarrow> bool" where
  \<comment> \<open>the class \<open>[a-z]\<close>\<close>
  "is_ascii_lower c = (let n = code c in 97 \<le> n \<and> n \<le> 122)"

definition is_ascii_upper :: "char \<Rightarrow> bool" where
  \<comment> \<open>the class \<open>[A-Z]\<close>\<close>
  "is_ascii_upper c = (let n = code c in 65 \<le> n \<and> n \<le> 90)"

definition is_ascii_digit :: "char \<Rightarrow> bool" where
  \<comment> \<open>the class \<open>[0-9]\<close>\<close>
  "is_ascii_digit c = (let n = code c in 48 \<le> n \<and> n \<le> 57)"

definition is_word :: "char \<Rightarrow> bool" where
  \<comment> \<open>\<open>\w\<close> of a \<open>str\<close> pattern: the alphanumeric code points and the underscore.
      Below 256 the alphanumerics outside ASCII are U+00AA, U+00B2, U+00B3, U+00B5,
      U+00B9, U+00BA, U+00BC..U+00BE, U+00C0..U+00D6, U+00D8..U+00F6, U+00F8..U+00FF.\<close>
  "is_word c =
     (let n = code c
      in is_ascii_digit c \<or> is_ascii_upper c \<or> c = CHR ''_'' \<or> is_ascii_lower c
         \<or> n = 170 \<or> n = 178 \<or> n = 179 \<or> n = 181 \<or> n = 185 \<or> n = 186
         \<or> (188 \<le> n \<and> n \<le> 190) \<or> (192 \<le> n \<and> n \<le> 214)
         \<or> (216 \<le> n \<and> n \<le> 246) \<or> (248 \<le> n \<and> n \<le> 255))"

definition is_pseudo_name_char :: "char \<Rightarrow> bool" where
  \<comment> \<open>the class \<open>[\w-]\<close>\<close>
  "is_pseudo_name_char c = (is_word c \<or> c = CHR ''-'')"

definition is_name_char :: "char \<Rightarrow> bool" where
  \<comment> \<open>the class \<open>[a-zA-Z0-9_-]\<close>\<close>
  "is_name_char c =
     (is_ascii_lower c \<or> is_ascii_upper c \<or> is_ascii_digit c \<or> c = CHR ''_'' \<or> c = CHR ''-'')"

definition is_tag_char :: "char \<Rightarrow> bool" where
  \<comment> \<open>the class \<open>[a-z0-9]\<close>\<close>
  "is_tag_char c = (is_ascii_lower c \<or> is_ascii_digit c)"

definition lower_char :: "char \<Rightarrow> char" where
  \<comment> \<open>\<open>str.lower()\<close> on one code point below 256: A..Z, U+00C0..U+00D6 and
      U+00D8..U+00DE move up by 32, every other code point stays.\<close>
  "lower_char c =
     (let n = code c
      in if (65 \<le> n \<and> n \<le> 90) \<or> (192 \<le> n \<and> n \<le> 214) \<or> (216 \<le> n \<and> n \<le> 222)
         then char_of (n + 32) else c)"

definition lower :: "string \<Rightarrow> string" where
  "lower s = map lower_char s"

section \<open>Python string and regular-expression primitives\<close>

text \<open>
  Each regular expression of the source is modelled by a matcher that tries the pattern at
  the head of the remaining text, and by the left-to-right scan of \<open>re.sub\<close> or
  \<open>re.findall\<close>: on a match the scan continues behind it, otherwise it steps over one
  character. None of the patterns can match the empty string.
\<close>

function collapse_ws :: "string \<Rightarrow> string" where
  \<comment> \<open>\<open>re.sub(r'\s+', ' ', css_text)\<close>: a maximal run of whitespace becomes one space.\<close>
  "collapse_ws [] = []"
| "collapse_ws (c # cs) =
     (if is_space c then CHR '' '' # collapse_ws (dropWhile is_space cs)
      else c # collapse_ws cs)"
  by pat_completeness auto
termination
  by (relation "measure length") (auto simp: less_Suc_eq_le length_dropWhile_le)

definition strip :: "string \<Rightarrow> string" where
  \<comment> \<open>\<open>str.strip()\<close>\<close>
  "strip s = rev (dropWhile is_space (rev (dropWhile is_space s)))"

definition match_args :: "string \<Rightarrow> string" where
  \<comment> \<open>the optional group \<open>(\([^)]*\))?\<close>: the text behind it. The group matches when an
      opening parenthesis is next and a closing one follows somewhere; otherwise it is
      skipped.\<close>
  "match_args s =
     (case s of
        [] \<Rightarrow> s
      | c # cs \<Rightarrow>
          if c = CHR ''('' then
            (case dropWhile (\<lambda>d. d \<noteq> CHR '')'') cs of [] \<Rightarrow> s | _ # rest \<Rightarrow> rest)
          else s)"

definition match_pseudo :: "string \<Rightarrow> string option" where
  \<comment> \<open>\<open>::?[\w-]+(\([^)]*\))?\<close> at the head of the text: the text behind the match.\<close>
  "match_pseudo s =
     (case s of
        [] \<Rightarrow> None
      | c # cs \<Rightarrow>
          if c = CHR '':'' then
            (let r = (case cs of [] \<Rightarrow> cs | d # ds \<Rightarrow> if d = CHR '':'' then ds else cs)
             in if takeWhile is_pseudo_name_char r = [] then None
                else Some (match_args (dropWhile is_pseudo_name_char r)))
          else None)"

lemma length_match_args: "length (match_args s) \<le> length s"
proof (cases s)
  case Nil
  then show ?thesis by (simp add: match_args_def)
next
  case (Cons c cs)
  have "length (dropWhile (\<lambda>d. d \<noteq> CHR '')'') cs) \<le> length cs"
    by (rule length_dropWhile_le)
  then show ?thesis using Cons
    by (auto simp: match_args_def split: list.splits)
qed

lemma length_match_pseudo:
  assumes "match_pseudo s = Some rest"
  shows "length rest < length s"
proof (cases s)
  case Nil
  with assms show ?thesis by (simp add: match_pseudo_def)
next
  case (Cons c cs)
  define r where "r = (case cs of [] \<Rightarrow> cs | d # ds \<Rightarrow> if d = CHR '':'' then ds else cs)"
  have r: "length r \<le> length cs"
    by (auto simp: r_def split: list.splits)
  from assms Cons have rest: "rest = match_args (dropWhile is_pseudo_name_char r)"
    by (auto simp: match_pseudo_def r_def Let_def split: if_splits)
  have "length rest \<le> length (dropWhile is_pseudo_name_char r)"
    unfolding rest by (rule length_match_args)
  also have "\<dots> \<le> length r"
    by (rule length_dropWhile_le)
  finally show ?thesis using r Cons by simp
qed

function strip_pseudo :: "string \<Rightarrow> string" where
  \<comment> \<open>\<open>re.sub(r'::?[\w-]+(\([^)]*\))?', '', selector)\<close>\<close>
  "strip_pseudo [] = []"
| "strip_pseudo (c # cs) =
     (case match_pseudo (c # cs) of
        Some rest \<Rightarrow> strip_pseudo rest
      | None \<Rightarrow> c # strip_pseudo cs)"
  by pat_completeness auto
termination
  by (relation "measure length") (auto dest: length_match_pseudo)

definition match_prefixed :: "char \<Rightarrow> string \<Rightarrow> (string \<times> string) option" where
  \<comment> \<open>\<open>\.([a-zA-Z0-9_-]+)\<close> and \<open>#([a-zA-Z0-9_-]+)\<close> at the head of the text, the first
      argument being the leading character: the captured group and the text behind the
      match.\<close>
  "match_prefixed p s =
     (case s of
        [] \<Rightarrow> None
      | c # cs \<Rightarrow>
          if c = p \<and> takeWhile is_name_char cs \<noteq> []
          then Some (takeWhile is_name_char cs, dropWhile is_name_char cs)
          else None)"

lemma length_match_prefixed:
  assumes "match_prefixed p s = Some (g, rest)"
  shows "length rest < length s"
proof (cases s)
  case Nil
  with assms show ?thesis by (simp add: match_prefixed_def)
next
  case (Cons c cs)
  with assms have "rest = dropWhile is_name_char cs"
    by (auto simp: match_prefixed_def split: if_splits)
  then show ?thesis using Cons
    by (simp add: less_Suc_eq_le length_dropWhile_le)
qed

function findall_prefixed :: "char \<Rightarrow> string \<Rightarrow> string list" where
  \<comment> \<open>\<open>re.findall(r'\.([a-zA-Z0-9_-]+)', cleaned)\<close>, and the same with \<open>#\<close>\<close>
  "findall_prefixed p [] = []"
| "findall_prefixed p (c # cs) =
     (case match_prefixed p (c # cs) of
        Some (g, rest) \<Rightarrow> g # findall_prefixed p rest
      | None \<Rightarrow> findall_prefixed p cs)"
  by pat_completeness auto
termination
  by (relation "measure (\<lambda>(p, s). length s)") (auto dest: length_match_prefixed)

definition word_before :: "char option \<Rightarrow> bool" where
  \<comment> \<open>whether the character in front of the current position is a word character;
      \<open>None\<close> is the start of the text\<close>
  "word_before prev = (case prev of None \<Rightarrow> False | Some c \<Rightarrow> is_word c)"

definition match_tag :: "char option \<Rightarrow> string \<Rightarrow> (string \<times> string) option" where
  \<comment> \<open>\<open>\b([a-z][a-z0-9]*)\b\<close> at the head of the text, with the character in front of it:
      the captured group and the text behind the match. The first \<open>\b\<close> holds when no
      word character is in front, since \<open>[a-z]\<close> is one. The greedy \<open>[a-z0-9]*\<close> takes the
      whole run; the second \<open>\b\<close> holds when the text ends there or goes on with a
      character that is no word character. A shorter run would end between two word
      characters, so backtracking finds no other match.\<close>
  "match_tag prev s =
     (case s of
        [] \<Rightarrow> None
      | c # cs \<Rightarrow>
          if \<not> word_before prev \<and> is_ascii_lower c then
            (case dropWhile is_tag_char cs of
               [] \<Rightarrow> Some (c # takeWhile is_tag_char cs, [])
             | d # ds \<Rightarrow>
                 if is_word d then None
                 else Some (c # takeWhile is_tag_char cs, d # ds))
          else None)"

lemma length_match_tag:
  assumes "match_tag prev s = Some (g, rest)"
  shows "length rest < length s"
proof (cases s)
  case Nil
  with assms show ?thesis by (simp add: match_tag_def)
next
  case (Cons c cs)
  have "length (dropWhile is_tag_char cs) \<le> length cs"
    by (rule length_dropWhile_le)
  moreover from assms Cons have "rest = dropWhile is_tag_char cs"
    by (cases "dropWhile is_tag_char cs")
      (simp_all add: match_tag_def del: dropWhile_eq_Nil_conv split: if_splits)
  ultimately show ?thesis using Cons by simp
qed

function findall_tags :: "char option \<Rightarrow> string \<Rightarrow> string list" where
  \<comment> \<open>\<open>re.findall(r'\b([a-z][a-z0-9]*)\b', text)\<close>; the first argument is the character in
      front of the remaining text\<close>
  "findall_tags prev [] = []"
| "findall_tags prev (c # cs) =
     (case match_tag prev (c # cs) of
        Some (g, rest) \<Rightarrow> g # findall_tags (Some (last g)) rest
      | None \<Rightarrow> findall_tags (Some c) cs)"
  by pat_completeness auto
termination
  by (relation "measure (\<lambda>(prev, s). length s)") (auto dest: length_match_tag)

function py_split :: "char \<Rightarrow> string \<Rightarrow> string list" where
  \<comment> \<open>\<open>str.split(sep)\<close> for a separator of one character\<close>
  "py_split sep s =
     (case dropWhile (\<lambda>c. c \<noteq> sep) s of
        [] \<Rightarrow> [s]
      | _ # rest \<Rightarrow> takeWhile (\<lambda>c. c \<noteq> sep) s # py_split sep rest)"
  by pat_completeness auto
termination
proof (relation "measure (\<lambda>(sep, s). length s)")
  show "wf (measure (\<lambda>(sep, s). length s))" by simp
next
  fix sep :: char and s x rest
  assume "dropWhile (\<lambda>c. c \<noteq> sep) s = x # rest"
  then have "Suc (length rest) = length (dropWhile (\<lambda>c. c \<noteq> sep) s)" by simp
  also have "\<dots> \<le> length s" by (rule length_dropWhile_le)
  finally show "((sep, rest), (sep, s)) \<in> measure (\<lambda>(sep, s). length s)" by simp
qed

declare py_split.simps [simp del]

datatype py_error = IndexError

definition py_index :: "'a list \<Rightarrow> nat \<Rightarrow> py_error + 'a" where
  \<comment> \<open>\<open>xs[i]\<close> for an index that is not negative\<close>
  "py_index xs i = (if i < length xs then Inr (xs ! i) else Inl IndexError)"

section \<open>The analyzer\<close>

record components =
  classes :: "string set"
  ids :: "string set"
  tags :: "string set"

text \<open>
  The two \<open>defaultdict(list)\<close> fields keep their keys in the order of first insertion, which
  is the order \<open>items()\<close> iterates in: an association list with one entry per key.
\<close>

type_synonym ('k, 'v) dict = "('k \<times> 'v list) list"

fun dict_append :: "('k, 'v) dict \<Rightarrow> 'k \<Rightarrow> 'v \<Rightarrow> ('k, 'v) dict" where
  \<comment> \<open>\<open>d[k].append(v)\<close> on a \<open>defaultdict(list)\<close>\<close>
  "dict_append [] k v = [(k, [v])]"
| "dict_append ((k', vs) # d) k v =
     (if k' = k then (k', vs @ [v]) # d else (k', vs) # dict_append d k v)"

record analyzer =
  html_dir :: string
  css_dir :: string
  html_classes :: "string set"
  html_ids :: "string set"
  html_tags :: "string set"
  css_selectors :: "(string, string) dict"
  duplicate_rules :: "(string, string \<times> string) dict"

definition init :: "string \<Rightarrow> string \<Rightarrow> analyzer" where
  \<comment> \<open>\<open>__init__\<close>\<close>
  "init hdir cdir =
     \<lparr>html_dir = hdir, css_dir = cdir, html_classes = {}, html_ids = {}, html_tags = {},
      css_selectors = [], duplicate_rules = []\<rparr>"

definition hash_rule :: "string \<Rightarrow> string \<Rightarrow> string" where
  \<comment> \<open>\<open>_hash_rule\<close>\<close>
  "hash_rule selector css_text =
     (let normalized = strip (collapse_ws css_text)
      in selector @ ''|'' @ normalized)"

text \<open>
  \<open>parse_css_files\<close> reads the files and lets \<open>cssutils\<close> parse them; what it does with the
  style rules it gets is the body of its inner loop. The model takes the rules in the order
  the loops visit them, each as \<open>(selectorText, style.cssText, css_file)\<close>.
\<close>

definition parse_css_rule :: "analyzer \<Rightarrow> string \<times> string \<times> string \<Rightarrow> analyzer" where
  "parse_css_rule a r =
     (case r of (selector, css_text, css_file) \<Rightarrow>
        (let rule_hash = hash_rule selector css_text
         in a\<lparr>css_selectors := dict_append (css_selectors a) selector css_file,
              duplicate_rules :=
                dict_append (duplicate_rules a) rule_hash (css_file, selector)\<rparr>))"

definition parse_css_rules :: "analyzer \<Rightarrow> (string \<times> string \<times> string) list \<Rightarrow> analyzer" where
  "parse_css_rules a rs = foldl parse_css_rule a rs"

definition css_keywords :: "string set" where
  "css_keywords = {''not'', ''is'', ''where'', ''has''}"

definition extract_selector_components :: "string \<Rightarrow> components" where
  \<comment> \<open>\<open>_extract_selector_components\<close>\<close>
  "extract_selector_components selector =
     (let cleaned = strip_pseudo selector
      in \<lparr>classes = set (findall_prefixed (CHR ''.'') cleaned),
          ids = set (findall_prefixed (CHR ''#'') cleaned),
          tags = set (findall_tags None (lower cleaned)) - css_keywords\<rparr>)"

record unused_entry =
  selector :: string
  files :: "string list"
  components :: components

fun unused_loop ::
  "analyzer \<Rightarrow> (string, string) dict \<Rightarrow> unused_entry list \<Rightarrow> unused_entry list" where
  \<comment> \<open>the loop of \<open>find_unused_selectors\<close> over the remaining items, with the list so far\<close>
  "unused_loop a [] unused = unused"
| "unused_loop a ((sel, fs) # rest) unused =
     (let comps = extract_selector_components sel;
          class_used = (\<exists>cls \<in> classes comps. cls \<in> html_classes a);
          id_used = (\<exists>i \<in> ids comps. i \<in> html_ids a);
          tag_used = (\<exists>tag \<in> tags comps. tag \<in> html_tags a);
          has_components = (classes comps \<noteq> {} \<or> ids comps \<noteq> {} \<or> tags comps \<noteq> {})
      in if has_components \<and> \<not> (class_used \<or> id_used \<or> tag_used)
         then unused_loop a rest
                (unused @ [\<lparr>selector = sel, files = fs, components = comps\<rparr>])
         else unused_loop a rest unused)"

definition find_unused_selectors :: "analyzer \<Rightarrow> unused_entry list" where
  "find_unused_selectors a = unused_loop a (css_selectors a) []"

record duplicate_selector_entry =
  dup_selector :: string
  dup_count :: nat
  dup_files :: "string list"

fun duplicate_selectors_loop ::
  "(string, string) dict \<Rightarrow> duplicate_selector_entry list \<Rightarrow> duplicate_selector_entry list"
  where
  "duplicate_selectors_loop [] duplicates = duplicates"
| "duplicate_selectors_loop ((sel, fs) # rest) duplicates =
     (if length fs > 1
      then duplicate_selectors_loop rest
             (duplicates @ [\<lparr>dup_selector = sel, dup_count = length fs, dup_files = fs\<rparr>])
      else duplicate_selectors_loop rest duplicates)"

definition find_duplicate_selectors :: "analyzer \<Rightarrow> duplicate_selector_entry list" where
  "find_duplicate_selectors a = duplicate_selectors_loop (css_selectors a) []"

record duplicate_rule_entry =
  rule :: string
  rule_count :: nat
  locations :: "(string \<times> string) list"

fun duplicate_rules_loop ::
  "(string, string \<times> string) dict \<Rightarrow> duplicate_rule_entry list
     \<Rightarrow> py_error + duplicate_rule_entry list" where
  "duplicate_rules_loop [] duplicates = Inr duplicates"
| "duplicate_rules_loop ((rule_hash, locs) # rest) duplicates =
     (if length locs > 1
      then (case py_index (py_split (CHR ''|'') rule_hash) 0 of
              Inl e \<Rightarrow> Inl e
            | Inr r \<Rightarrow>
                duplicate_rules_loop rest
                  (duplicates @ [\<lparr>rule = r, rule_count = length locs, locations = locs\<rparr>]))
      else duplicate_rules_loop rest duplicates)"

definition find_duplicate_rules :: "analyzer \<Rightarrow> py_error + duplicate_rule_entry list" where
  "find_duplicate_rules a = duplicate_rules_loop (duplicate_rules a) []"

section \<open>Notions of the specification\<close>

text \<open>
  The condition under which the specification calls a selector unused, in its words: the
  decomposition has at least one non-empty component set, no decomposed class name is a
  member of \<open>html_classes\<close>, no decomposed id name is a member of \<open>html_ids\<close> and no
  decomposed tag name is a member of \<open>html_tags\<close>.
\<close>

definition unused_by_spec :: "analyzer \<Rightarrow> string \<Rightarrow> bool" where
  "unused_by_spec a sel =
     (let c = extract_selector_components sel
      in \<not> (classes c = {} \<and> ids c = {} \<and> tags c = {})
         \<and> classes c \<inter> html_classes a = {}
         \<and> ids c \<inter> html_ids a = {}
         \<and> tags c \<inter> html_tags a = {})"

text \<open>
  The whitespace-separated tokens of a text, the maximal runs of characters that are no
  whitespace (what \<open>str.split()\<close> returns), and the tokens joined by single spaces. Two texts
  with the same tokens differ only in their whitespace runs: in how long a run between two
  tokens is and of which whitespace characters, and in whitespace at the two ends.
\<close>

function ws_tokens :: "string \<Rightarrow> string list" where
  "ws_tokens s =
     (case dropWhile is_space s of
        [] \<Rightarrow> []
      | c # cs \<Rightarrow>
          (c # takeWhile (\<lambda>x. \<not> is_space x) cs) # ws_tokens (dropWhile (\<lambda>x. \<not> is_space x) cs))"
  by pat_completeness auto
termination
proof (relation "measure length")
  show "wf (measure length)" by simp
next
  fix s :: string and c cs
  assume "dropWhile is_space s = c # cs"
  then have "Suc (length cs) = length (dropWhile is_space s)" by simp
  also have "\<dots> \<le> length s" by (rule length_dropWhile_le)
  finally have "length cs < length s" by simp
  moreover have "length (dropWhile (\<lambda>x. \<not> is_space x) cs) \<le> length cs"
    by (rule length_dropWhile_le)
  ultimately show "(dropWhile (\<lambda>x. \<not> is_space x) cs, s) \<in> measure length" by simp
qed

declare ws_tokens.simps [simp del]

fun join_space :: "string list \<Rightarrow> string" where
  "join_space [] = []"
| "join_space [t] = t"
| "join_space (t # u # ts) = t @ CHR '' '' # join_space (u # ts)"

section \<open>Auxiliary definitions\<close>

text \<open>
  The entries the three reports build from an item of the index, the index after a sequence
  of insertions, the values inserted under one key, and \<open>strip\<close> at the right end only.
\<close>

definition unused_entry_of :: "string \<times> string list \<Rightarrow> unused_entry" where
  "unused_entry_of item =
     \<lparr>selector = fst item, files = snd item,
      components = extract_selector_components (fst item)\<rparr>"

definition duplicate_selector_entry_of :: "string \<times> string list \<Rightarrow> duplicate_selector_entry" where
  "duplicate_selector_entry_of item =
     \<lparr>dup_selector = fst item, dup_count = length (snd item), dup_files = snd item\<rparr>"

definition duplicate_rule_entry_of :: "string \<times> (string \<times> string) list \<Rightarrow> duplicate_rule_entry" where
  "duplicate_rule_entry_of item =
     \<lparr>rule = takeWhile (\<lambda>c. c \<noteq> CHR ''|'') (fst item), rule_count = length (snd item),
      locations = snd item\<rparr>"

definition dict_extend :: "('k, 'v) dict \<Rightarrow> ('k \<times> 'v) list \<Rightarrow> ('k, 'v) dict" where
  "dict_extend d kvs = foldl (\<lambda>d kv. dict_append d (fst kv) (snd kv)) d kvs"

definition values_of :: "'k \<Rightarrow> ('k \<times> 'v) list \<Rightarrow> 'v list" where
  "values_of k kvs = map snd (filter (\<lambda>kv. fst kv = k) kvs)"

definition rstrip :: "string \<Rightarrow> string" where
  "rstrip s = rev (dropWhile is_space (rev s))"

text \<open>
  Analyzer states and rule sequences used as concrete inputs. \<open>scenario1\<close> is the first
  end-to-end scenario of the specification.
\<close>

definition scenario1 :: analyzer where
  "scenario1 =
     \<lparr>html_dir = ''site'', css_dir = ''css'', html_classes = {''card''}, html_ids = {},
      html_tags = {''div'', ''p''},
      css_selectors = [(''.card'', [''s.css'']), (''.missing'', [''s.css'']), (''*'', [''s.css''])],
      duplicate_rules = []\<rparr>"

definition scenario3 :: analyzer where
  "scenario3 =
     \<lparr>html_dir = ''site'', css_dir = ''css'', html_classes = {}, html_ids = {}, html_tags = {},
      css_selectors = [(''div:hover::after'', [''s.css''])],
      duplicate_rules = [(''div:hover::after|color: red'', [(''s.css'', ''div:hover::after'')])]\<rparr>"

definition keyword_rules :: analyzer where
  "keyword_rules =
     \<lparr>html_dir = ''site'', css_dir = ''css'', html_classes = {}, html_ids = {},
      html_tags = {''div''},
      css_selectors = [(''not'', [''s.css'']), (''span'', [''s.css''])],
      duplicate_rules = []\<rparr>"

definition repeated_rules :: "(string \<times> string \<times> string) list" where
  "repeated_rules =
     [(''.btn'', ''padding: 4px'', ''a.css''), (''.once'', ''margin: 0'', ''a.css''),
      (''.btn'', ''color: red'', ''a.css''), (''.btn'', ''padding: 4px'', ''b.css'')]"

section \<open>The report loops as filters\<close>

lemma unused_loop_step:
  "unused_loop a ((sel, fs) # rest) acc =
     unused_loop a rest
       (if unused_by_spec a sel then acc @ [unused_entry_of (sel, fs)] else acc)"
  by (auto simp: unused_by_spec_def unused_entry_of_def Let_def)

lemma unused_loop_eq:
  "unused_loop a items acc =
     acc @ map unused_entry_of (filter (\<lambda>item. unused_by_spec a (fst item)) items)"
proof (induction items arbitrary: acc)
  case Nil
  show ?case by simp
next
  case (Cons item items)
  obtain sel fs where item: "item = (sel, fs)" by (cases item)
  show ?case
    unfolding item unused_loop_step by (simp add: Cons.IH)
qed

lemma find_unused_selectors_eq:
  "find_unused_selectors a =
     map unused_entry_of (filter (\<lambda>item. unused_by_spec a (fst item)) (css_selectors a))"
  by (simp add: find_unused_selectors_def unused_loop_eq)

lemma duplicate_selectors_loop_eq:
  "duplicate_selectors_loop items acc =
     acc @ map duplicate_selector_entry_of (filter (\<lambda>item. 1 < length (snd item)) items)"
  by (induction items acc rule: duplicate_selectors_loop.induct)
     (simp_all add: duplicate_selector_entry_of_def)

lemma py_split_first:
  "py_index (py_split sep s) 0 = Inr (takeWhile (\<lambda>c. c \<noteq> sep) s)"
proof (cases "dropWhile (\<lambda>c. c \<noteq> sep) s")
  case Nil
  then have "\<forall>x \<in> set s. x \<noteq> sep" by simp
  then have tw: "takeWhile (\<lambda>c. c \<noteq> sep) s = s" by simp
  show ?thesis
    by (subst py_split.simps) (simp add: Nil tw py_index_def)
next
  case (Cons x rest)
  show ?thesis
    by (subst py_split.simps) (simp add: Cons py_index_def)
qed

lemma duplicate_rules_loop_eq:
  "duplicate_rules_loop items acc =
     Inr (acc @ map duplicate_rule_entry_of (filter (\<lambda>item. 1 < length (snd item)) items))"
  by (induction items acc rule: duplicate_rules_loop.induct)
     (simp_all add: duplicate_rule_entry_of_def py_split_first)

lemma find_duplicate_rules_eq:
  "find_duplicate_rules a =
     Inr (map duplicate_rule_entry_of
            (filter (\<lambda>item. 1 < length (snd item)) (duplicate_rules a)))"
  by (simp add: find_duplicate_rules_def duplicate_rules_loop_eq)

lemma distinct_map_filter_fst:
  "distinct (map fst xs) \<Longrightarrow> distinct (map fst (filter P xs))"
  by (induction xs) auto

section \<open>The index after parsing\<close>

lemma dict_append_keys:
  "map fst (dict_append d k v) = (if k \<in> set (map fst d) then map fst d else map fst d @ [k])"
  by (induction d k v rule: dict_append.induct) auto

lemma dict_append_distinct:
  "distinct (map fst d) \<Longrightarrow> distinct (map fst (dict_append d k v))"
  by (simp add: dict_append_keys)

lemma map_of_dict_append:
  "map_of (dict_append d k v) k' =
     (if k' = k then Some (case map_of d k of None \<Rightarrow> [v] | Some vs \<Rightarrow> vs @ [v])
      else map_of d k')"
  by (induction d k v rule: dict_append.induct) auto

lemma dict_extend_distinct:
  "distinct (map fst d) \<Longrightarrow> distinct (map fst (dict_extend d kvs))"
  unfolding dict_extend_def
  by (induction kvs arbitrary: d) (simp_all add: dict_append_distinct)

lemma map_of_dict_extend:
  "map_of (dict_extend d kvs) k =
     (case map_of d k of
        None \<Rightarrow> if values_of k kvs = [] then None else Some (values_of k kvs)
      | Some vs \<Rightarrow> Some (vs @ values_of k kvs))"
  unfolding dict_extend_def
proof (induction kvs arbitrary: d)
  case Nil
  show ?case by (simp add: values_of_def split: option.splits)
next
  case (Cons kv kvs)
  show ?case
    by (simp add: Cons.IH map_of_dict_append values_of_def split: option.splits)
qed

lemma dict_extend_member:
  "(k, vs) \<in> set (dict_extend [] kvs) \<longleftrightarrow> vs = values_of k kvs \<and> vs \<noteq> []"
proof -
  have "distinct (map fst (dict_extend ([] :: ('a, 'b) dict) kvs))"
    by (rule dict_extend_distinct) simp
  then have "(k, vs) \<in> set (dict_extend [] kvs) \<longleftrightarrow> map_of (dict_extend [] kvs) k = Some vs"
    by simp
  then show ?thesis
    by (auto simp: map_of_dict_extend)
qed

lemma css_selectors_parse_css_rules:
  "css_selectors (parse_css_rules a rs) =
     dict_extend (css_selectors a) (map (\<lambda>(sel, css_text, css_file). (sel, css_file)) rs)"
  unfolding parse_css_rules_def dict_extend_def
  by (induction rs arbitrary: a) (simp_all add: parse_css_rule_def split: prod.splits)

lemma duplicate_rules_parse_css_rules:
  "duplicate_rules (parse_css_rules a rs) =
     dict_extend (duplicate_rules a)
       (map (\<lambda>(sel, css_text, css_file). (hash_rule sel css_text, (css_file, sel))) rs)"
  unfolding parse_css_rules_def dict_extend_def
  by (induction rs arbitrary: a) (simp_all add: parse_css_rule_def Let_def split: prod.splits)

lemma length_values_of_selector:
  "length (values_of sel (map (\<lambda>(sel, css_text, css_file). (sel, css_file)) rs)) =
     count_list (map fst rs) sel"
  by (induction rs) (auto simp: values_of_def)

lemma values_of_selector:
  "values_of sel (map (\<lambda>(sel, css_text, css_file). (sel, css_file)) rs) =
     map (\<lambda>(sel', css_text, css_file). css_file) (filter (\<lambda>(sel', css_text, css_file). sel' = sel) rs)"
  by (induction rs) (auto simp: values_of_def)

section \<open>Normalized declarations and their tokens\<close>

lemma is_space_space: "is_space (CHR '' '')"
  by (simp add: is_space_def code_def)

lemma strip_rstrip: "strip s = rstrip (dropWhile is_space s)"
  by (simp add: strip_def rstrip_def)

lemma rstrip_keep: "\<not> is_space x \<Longrightarrow> rstrip (x # s) = x # rstrip s"
  by (simp add: rstrip_def dropWhile_append3)

lemma rstrip_keep_all: "\<forall>x \<in> set t. \<not> is_space x \<Longrightarrow> rstrip (t @ s) = t @ rstrip s"
  by (induction t) (simp_all add: rstrip_keep)

lemma rstrip_space:
  "is_space x \<Longrightarrow> rstrip (x # s) = (if rstrip s = [] then [] else x # rstrip s)"
  by (simp add: rstrip_def dropWhile_append)

lemma collapse_ws_keep_all:
  "\<forall>x \<in> set t. \<not> is_space x \<Longrightarrow> collapse_ws (t @ s) = t @ collapse_ws s"
  by (induction t) simp_all

lemma collapse_ws_token:
  "collapse_ws s = takeWhile (\<lambda>x. \<not> is_space x) s @ collapse_ws (dropWhile (\<lambda>x. \<not> is_space x) s)"
proof -
  have "collapse_ws (takeWhile (\<lambda>x. \<not> is_space x) s @ dropWhile (\<lambda>x. \<not> is_space x) s) =
        takeWhile (\<lambda>x. \<not> is_space x) s @ collapse_ws (dropWhile (\<lambda>x. \<not> is_space x) s)"
    by (rule collapse_ws_keep_all) (auto dest: set_takeWhileD)
  then show ?thesis by simp
qed

lemma collapse_ws_leading:
  "collapse_ws s =
     (if s \<noteq> [] \<and> is_space (hd s) then CHR '' '' # collapse_ws (dropWhile is_space s)
      else collapse_ws (dropWhile is_space s))"
  by (cases s) simp_all

lemma lstrip_collapse_ws:
  "dropWhile is_space (collapse_ws (dropWhile is_space s)) = collapse_ws (dropWhile is_space s)"
proof (cases "dropWhile is_space s")
  case Nil
  then show ?thesis by (simp del: dropWhile_eq_Nil_conv)
next
  case (Cons c cs)
  then have "\<not> is_space c"
    by (metis hd_dropWhile list.distinct(1) list.sel(1))
  with Cons show ?thesis by simp
qed

lemma strip_collapse_ws:
  "strip (collapse_ws s) = rstrip (collapse_ws (dropWhile is_space s))"
proof -
  have "dropWhile is_space (collapse_ws s) = collapse_ws (dropWhile is_space s)"
    by (subst collapse_ws_leading) (simp add: is_space_space lstrip_collapse_ws)
  then show ?thesis by (simp add: strip_rstrip)
qed

lemma rstrip_collapse_ws:
  assumes "r = [] \<or> is_space (hd r)"
  shows "rstrip (collapse_ws r) =
           (if strip (collapse_ws r) = [] then [] else CHR '' '' # strip (collapse_ws r))"
proof (cases r)
  case Nil
  then show ?thesis by (simp add: rstrip_def strip_def)
next
  case (Cons w r1)
  with assms have "is_space w" by simp
  then have "collapse_ws r = CHR '' '' # collapse_ws (dropWhile is_space r)"
    using Cons by simp
  then show ?thesis
    by (simp add: rstrip_space is_space_space strip_collapse_ws [symmetric])
qed

lemma ws_tokens_nonempty: "[] \<notin> set (ws_tokens s)"
proof (induction s rule: ws_tokens.induct)
  case (1 s)
  show ?case
  proof (cases "dropWhile is_space s")
    case Nil
    then show ?thesis by (subst ws_tokens.simps) (simp del: dropWhile_eq_Nil_conv)
  next
    case (Cons c cs)
    with 1 [OF Cons] show ?thesis by (subst ws_tokens.simps) simp
  qed
qed

lemma join_space_Nil: "[] \<notin> set ts \<Longrightarrow> join_space ts = [] \<longleftrightarrow> ts = []"
  by (induction ts rule: join_space.induct) auto

lemma join_space_Cons:
  "join_space (t # ts) = (if ts = [] then t else t @ CHR '' '' # join_space ts)"
  by (cases ts) simp_all

lemma normalized_is_joined_tokens:
  "strip (collapse_ws s) = join_space (ws_tokens s)"
proof (induction s rule: ws_tokens.induct)
  case (1 s)
  show ?case
  proof (cases "dropWhile is_space s")
    case Nil
    then have "ws_tokens s = []"
      by (subst ws_tokens.simps) (simp del: dropWhile_eq_Nil_conv)
    moreover from Nil have "strip (collapse_ws s) = []"
      by (simp add: strip_collapse_ws rstrip_def del: dropWhile_eq_Nil_conv)
    ultimately show ?thesis by simp
  next
    case (Cons c cs)
    define t where "t = c # takeWhile (\<lambda>x. \<not> is_space x) cs"
    define r where "r = dropWhile (\<lambda>x. \<not> is_space x) cs"
    from Cons have c: "\<not> is_space c"
      by (metis hd_dropWhile list.distinct(1) list.sel(1))
    then have t: "\<forall>x \<in> set t. \<not> is_space x"
      by (auto simp: t_def dest: set_takeWhileD)
    have r: "r = [] \<or> is_space (hd r)"
      unfolding r_def by (metis hd_dropWhile)
    have tokens: "ws_tokens s = t # ws_tokens r"
      by (subst ws_tokens.simps) (simp add: Cons t_def r_def)
    have IH: "strip (collapse_ws r) = join_space (ws_tokens r)"
      unfolding r_def by (rule 1 [OF Cons])
    have "collapse_ws (c # cs) = t @ collapse_ws r"
      using c collapse_ws_token [of cs] by (simp add: t_def r_def)
    then have "strip (collapse_ws s) = t @ rstrip (collapse_ws r)"
      by (simp add: strip_collapse_ws Cons rstrip_keep_all t)
    also have "\<dots> = t @ (if join_space (ws_tokens r) = [] then []
                          else CHR '' '' # join_space (ws_tokens r))"
      by (simp add: rstrip_collapse_ws [OF r] IH)
    also have "\<dots> = join_space (t # ws_tokens r)"
      by (simp add: join_space_Cons join_space_Nil ws_tokens_nonempty)
    finally show ?thesis by (simp add: tokens)
  qed
qed

lemma ws_tokens_leading: "is_space w \<Longrightarrow> ws_tokens (w # s) = ws_tokens s"
  by (subst ws_tokens.simps, subst (2) ws_tokens.simps) simp

lemma ws_tokens_Nil [code]: "ws_tokens [] = []"
  by (subst ws_tokens.simps) simp

lemma ws_tokens_Cons [code]:
  "ws_tokens (c # cs) =
     (if is_space c then ws_tokens cs
      else (c # takeWhile (\<lambda>x. \<not> is_space x) cs) # ws_tokens (dropWhile (\<lambda>x. \<not> is_space x) cs))"
  by (simp add: ws_tokens_leading) (subst ws_tokens.simps, simp)

lemma ws_tokens_token:
  assumes "\<not> is_space c" and "\<forall>x \<in> set cs. \<not> is_space x" and "r = [] \<or> is_space (hd r)"
  shows "ws_tokens ((c # cs) @ r) = (c # cs) # ws_tokens r"
proof -
  have "takeWhile (\<lambda>x. \<not> is_space x) (cs @ r) = cs"
    using assms(2,3) by (cases r) (simp_all add: takeWhile_tail)
  moreover have "dropWhile (\<lambda>x. \<not> is_space x) (cs @ r) = r"
    using assms(2,3) by (cases r) (simp_all add: dropWhile_append)
  ultimately show ?thesis
    using assms(1) by (subst ws_tokens.simps) simp
qed

lemma ws_tokens_join_space:
  assumes "\<forall>t \<in> set ts. t \<noteq> [] \<and> (\<forall>x \<in> set t. \<not> is_space x)"
  shows "ws_tokens (join_space ts) = ts"
  using assms
proof (induction ts rule: join_space.induct)
  case 1
  show ?case by (simp add: ws_tokens_Nil)
next
  case (2 t)
  then obtain c cs where t: "t = c # cs" by (cases t) auto
  with 2 have "ws_tokens ((c # cs) @ []) = (c # cs) # ws_tokens []"
    by (intro ws_tokens_token) simp_all
  then show ?case by (simp add: t ws_tokens_Nil)
next
  case (3 t u ts)
  then obtain c cs where t: "t = c # cs" by (cases t) auto
  with 3 have "ws_tokens ((c # cs) @ CHR '' '' # join_space (u # ts)) =
               (c # cs) # ws_tokens (CHR '' '' # join_space (u # ts))"
    by (intro ws_tokens_token) (simp_all add: is_space_space)
  also have "ws_tokens (CHR '' '' # join_space (u # ts)) = u # ts"
    using 3 by (simp add: ws_tokens_leading is_space_space)
  finally show ?case by (simp add: t)
qed

lemma ws_tokens_no_space:
  "t \<in> set (ws_tokens s) \<Longrightarrow> x \<in> set t \<Longrightarrow> \<not> is_space x"
proof (induction s rule: ws_tokens.induct)
  case (1 s)
  show ?case
  proof (cases "dropWhile is_space s")
    case Nil
    then have "ws_tokens s = []"
      by (subst ws_tokens.simps) (simp del: dropWhile_eq_Nil_conv)
    with "1.prems"(1) show ?thesis by simp
  next
    case (Cons c cs)
    then have c: "\<not> is_space c"
      by (metis hd_dropWhile list.distinct(1) list.sel(1))
    have "ws_tokens s =
        (c # takeWhile (\<lambda>x. \<not> is_space x) cs) # ws_tokens (dropWhile (\<lambda>x. \<not> is_space x) cs)"
      by (subst ws_tokens.simps) (simp add: Cons)
    with "1.prems"(1)
    consider "t = c # takeWhile (\<lambda>x. \<not> is_space x) cs"
      | "t \<in> set (ws_tokens (dropWhile (\<lambda>x. \<not> is_space x) cs))"
      by auto
    then show ?thesis
    proof cases
      case 1
      with "1.prems"(2) have "x = c \<or> x \<in> set (takeWhile (\<lambda>x. \<not> is_space x) cs)"
        by simp
      then show ?thesis
        using c by (blast dest: set_takeWhileD)
    next
      case 2
      then show ?thesis
        using "1.prems"(2) by (rule "1.IH" [OF Cons])
    qed
  qed
qed

lemma ws_tokens_wellformed:
  "\<forall>t \<in> set (ws_tokens s). t \<noteq> [] \<and> (\<forall>x \<in> set t. \<not> is_space x)"
  using ws_tokens_nonempty [of s] ws_tokens_no_space [of _ s] by blast

lemma normalized_eq_iff:
  "strip (collapse_ws d1) = strip (collapse_ws d2) \<longleftrightarrow> ws_tokens d1 = ws_tokens d2"
proof
  assume "strip (collapse_ws d1) = strip (collapse_ws d2)"
  then have "ws_tokens (join_space (ws_tokens d1)) = ws_tokens (join_space (ws_tokens d2))"
    by (simp add: normalized_is_joined_tokens)
  moreover have "ws_tokens (join_space (ws_tokens d)) = ws_tokens d" for d
    by (rule ws_tokens_join_space) (rule ws_tokens_wellformed)
  ultimately show "ws_tokens d1 = ws_tokens d2"
    by simp
next
  assume "ws_tokens d1 = ws_tokens d2"
  then show "strip (collapse_ws d1) = strip (collapse_ws d2)"
    by (simp add: normalized_is_joined_tokens)
qed

lemma hash_rule_same_selector:
  "hash_rule sel d1 = hash_rule sel d2 \<longleftrightarrow> ws_tokens d1 = ws_tokens d2"
  by (simp add: hash_rule_def normalized_eq_iff)

lemma two_rules_same_selector:
  "find_duplicate_rules (parse_css_rules (init hdir cdir) [(sel, d1, f1), (sel, d2, f2)]) =
     (if ws_tokens d1 = ws_tokens d2
      then Inr [\<lparr>rule = takeWhile (\<lambda>c. c \<noteq> CHR ''|'') (hash_rule sel d1), rule_count = 2,
                 locations = [(f1, sel), (f2, sel)]\<rparr>]
      else Inr [])"
  by (simp add: find_duplicate_rules_eq duplicate_rules_parse_css_rules dict_extend_def init_def
      duplicate_rule_entry_of_def hash_rule_same_selector)

text \<open>
  The key is the selector text, a bar and the normalized declarations in one string. It
  determines both parts whenever the two selector texts, or the two declaration texts, are
  free of the bar.
\<close>

lemma takeWhile_bar_hash_rule:
  assumes "CHR ''|'' \<notin> set sel"
  shows "takeWhile (\<lambda>c. c \<noteq> CHR ''|'') (hash_rule sel css_text) = sel"
proof -
  have "takeWhile (\<lambda>c. c \<noteq> CHR ''|'') (sel @ CHR ''|'' # n) = sel" for n
    using assms by (induction sel) auto
  then show ?thesis by (simp add: hash_rule_def)
qed

lemma hash_rule_eq_iff:
  assumes "CHR ''|'' \<notin> set sel1" and "CHR ''|'' \<notin> set sel2"
  shows "hash_rule sel1 d1 = hash_rule sel2 d2 \<longleftrightarrow>
           sel1 = sel2 \<and> strip (collapse_ws d1) = strip (collapse_ws d2)"
proof
  assume eq: "hash_rule sel1 d1 = hash_rule sel2 d2"
  then have "takeWhile (\<lambda>c. c \<noteq> CHR ''|'') (hash_rule sel1 d1) =
             takeWhile (\<lambda>c. c \<noteq> CHR ''|'') (hash_rule sel2 d2)"
    by simp
  then have "sel1 = sel2"
    using assms by (simp add: takeWhile_bar_hash_rule)
  with eq show "sel1 = sel2 \<and> strip (collapse_ws d1) = strip (collapse_ws d2)"
    by (simp add: hash_rule_def)
next
  assume "sel1 = sel2 \<and> strip (collapse_ws d1) = strip (collapse_ws d2)"
  then show "hash_rule sel1 d1 = hash_rule sel2 d2"
    by (simp add: hash_rule_def)
qed

lemma set_collapse_ws: "set (collapse_ws s) \<subseteq> insert (CHR '' '') (set s)"
  by (induction s rule: collapse_ws.induct) (auto dest: set_dropWhileD)

lemma set_strip: "set (strip s) \<subseteq> set s"
proof
  fix x
  assume "x \<in> set (strip s)"
  then have "x \<in> set (dropWhile is_space (rev (dropWhile is_space s)))"
    by (simp add: strip_def)
  then have "x \<in> set (rev (dropWhile is_space s))"
    by (rule set_dropWhileD)
  then have "x \<in> set (dropWhile is_space s)"
    by simp
  then show "x \<in> set s"
    by (rule set_dropWhileD)
qed

lemma append_Cons_eq_first:
  assumes "x \<notin> set xs" and "x \<notin> set xs'"
  shows "xs @ x # ys = xs' @ x # ys' \<longleftrightarrow> xs = xs' \<and> ys = ys'"
proof
  assume eq: "xs @ x # ys = xs' @ x # ys'"
  have "takeWhile (\<lambda>c. c \<noteq> x) (zs @ x # ws) = zs" if "x \<notin> set zs" for zs ws
    using that by (induction zs) auto
  with assms have "takeWhile (\<lambda>c. c \<noteq> x) (xs @ x # ys) = xs"
    and "takeWhile (\<lambda>c. c \<noteq> x) (xs' @ x # ys') = xs'"
    by blast+
  with eq have "xs = xs'" by simp
  with eq show "xs = xs' \<and> ys = ys'" by simp
next
  assume "xs = xs' \<and> ys = ys'"
  then show "xs @ x # ys = xs' @ x # ys'" by simp
qed

lemma hash_rule_eq_iff_declarations:
  assumes "CHR ''|'' \<notin> set d1" and "CHR ''|'' \<notin> set d2"
  shows "hash_rule sel1 d1 = hash_rule sel2 d2 \<longleftrightarrow>
           sel1 = sel2 \<and> strip (collapse_ws d1) = strip (collapse_ws d2)"
proof -
  have bar: "CHR ''|'' \<notin> set (strip (collapse_ws d))" if "CHR ''|'' \<notin> set d" for d
  proof
    assume "CHR ''|'' \<in> set (strip (collapse_ws d))"
    then have "CHR ''|'' \<in> set (collapse_ws d)"
      using set_strip by blast
    then have "CHR ''|'' \<in> insert (CHR '' '') (set d)"
      using set_collapse_ws by blast
    with that show False by simp
  qed
  have "hash_rule sel1 d1 = hash_rule sel2 d2 \<longleftrightarrow>
        rev (hash_rule sel1 d1) = rev (hash_rule sel2 d2)"
    by simp
  also have "\<dots> \<longleftrightarrow>
        rev (strip (collapse_ws d1)) @ CHR ''|'' # rev sel1 =
        rev (strip (collapse_ws d2)) @ CHR ''|'' # rev sel2"
    by (simp add: hash_rule_def)
  also have "\<dots> \<longleftrightarrow>
        rev (strip (collapse_ws d1)) = rev (strip (collapse_ws d2)) \<and> rev sel1 = rev sel2"
    by (rule append_Cons_eq_first) (simp_all add: bar assms)
  finally show ?thesis by auto
qed

section \<open>Evaluations on concrete texts\<close>

lemma esc_card:
  "extract_selector_components ''.card'' = \<lparr>classes = {''card''}, ids = {}, tags = {''card''}\<rparr>"
  by code_simp

lemma esc_missing:
  "extract_selector_components ''.missing'' =
     \<lparr>classes = {''missing''}, ids = {}, tags = {''missing''}\<rparr>"
  by code_simp

lemma esc_star:
  "extract_selector_components ''*'' = \<lparr>classes = {}, ids = {}, tags = {}\<rparr>"
  by code_simp

lemma esc_header:
  "extract_selector_components ''.header'' =
     \<lparr>classes = {''header''}, ids = {}, tags = {''header''}\<rparr>"
  by code_simp

lemma esc_div_hover_after:
  "extract_selector_components ''div:hover::after'' = \<lparr>classes = {}, ids = {}, tags = {''div''}\<rparr>"
  by code_simp

lemma esc_keywords:
  "extract_selector_components ''not'' = \<lparr>classes = {}, ids = {}, tags = {}\<rparr>"
  "extract_selector_components ''is'' = \<lparr>classes = {}, ids = {}, tags = {}\<rparr>"
  "extract_selector_components ''where'' = \<lparr>classes = {}, ids = {}, tags = {}\<rparr>"
  "extract_selector_components ''has'' = \<lparr>classes = {}, ids = {}, tags = {}\<rparr>"
  by code_simp+

lemma esc_empty:
  "extract_selector_components '''' = \<lparr>classes = {}, ids = {}, tags = {}\<rparr>"
  by code_simp

lemma esc_unmatched:
  "extract_selector_components '':not(['' = \<lparr>classes = {}, ids = {}, tags = {}\<rparr>"
  by code_simp

lemma esc_combinators:
  "extract_selector_components ''> + ~'' = \<lparr>classes = {}, ids = {}, tags = {}\<rparr>"
  by code_simp

lemma hash_rule_lang:
  "hash_rule ''[lang|=en]'' ''color: red'' = ''[lang|=en]|color: red''"
  by code_simp

lemma ws_tokens_examples:
  "ws_tokens ''color:red'' = [''color:red'']"
  "ws_tokens ''color: red'' = [''color:'', ''red'']"
  "ws_tokens ''color:  red'' = [''color:'', ''red'']"
  "ws_tokens '' color: red '' = [''color:'', ''red'']"
  "ws_tokens ''color:red;margin:0'' = [''color:red;margin:0'']"
  "ws_tokens ''margin:0;color:red'' = [''margin:0;color:red'']"
  "ws_tokens ''color: red;\<newline>margin: 0'' = [''color:'', ''red;'', ''margin:'', ''0'']"
  "ws_tokens ''color: red; margin: 0'' = [''color:'', ''red;'', ''margin:'', ''0'']"
  "ws_tokens ''margin: 0;\<newline>color: red'' = [''margin:'', ''0;'', ''color:'', ''red'']"
  "ws_tokens ''font-family: Open Sans'' = [''font-family:'', ''Open'', ''Sans'']"
  "ws_tokens ''font-family: OpenSans'' = [''font-family:'', ''OpenSans'']"
  by code_simp+

section \<open>Decomposition of a selector\<close>

text \<open>
  Claim C1 says that a name that only follows a \<open>.\<close> or a \<open>#\<close> is never among the tags. The
  tag pattern \<open>\b([a-z][a-z0-9]*)\b\<close> does not look at the character in front of a name
  beyond its being no word character, so the name of a class segment is a tag as well:
  \<open>.card\<close> decomposes into the class \<open>card\<close> and the tag \<open>card\<close>. As a consequence a rule
  for the class \<open>header\<close> counts as used as soon as the markup has a \<open>header\<close> element,
  although no element has that class.
\<close>

theorem class_name_extracted_as_tag:
  "extract_selector_components ''.card'' = \<lparr>classes = {''card''}, ids = {}, tags = {''card''}\<rparr>
   \<and> find_unused_selectors
        \<lparr>html_dir = ''site'', css_dir = ''css'', html_classes = {}, html_ids = {},
         html_tags = {''header''}, css_selectors = [(''.header'', [''s.css''])],
         duplicate_rules = [(''.header|color: red'', [(''s.css'', ''.header'')])]\<rparr> = []"
  by (simp add: find_unused_selectors_eq unused_by_spec_def esc_card esc_header)

text \<open>
  Claim C9. The selector text \<open>div:hover::after\<close> decomposes into the tag set \<open>{div}\<close> with no
  class and no id; and when \<open>html_tags\<close> does not contain \<open>div\<close>, a selector record with
  that text is in the output of \<open>find_unused_selectors\<close>.
\<close>

theorem div_hover_after_unused:
  "extract_selector_components ''div:hover::after'' = \<lparr>classes = {}, ids = {}, tags = {''div''}\<rparr>
   \<and> ((''div:hover::after'', fs) \<in> set (css_selectors a) \<and> ''div'' \<notin> html_tags a \<longrightarrow>
        \<lparr>selector = ''div:hover::after'', files = fs,
         components = \<lparr>classes = {}, ids = {}, tags = {''div''}\<rparr>\<rparr>
          \<in> set (find_unused_selectors a))"
proof (intro conjI impI)
  show "extract_selector_components ''div:hover::after'' = \<lparr>classes = {}, ids = {}, tags = {''div''}\<rparr>"
    by (rule esc_div_hover_after)
next
  assume h: "(''div:hover::after'', fs) \<in> set (css_selectors a) \<and> ''div'' \<notin> html_tags a"
  then have "unused_by_spec a ''div:hover::after''"
    by (simp add: unused_by_spec_def esc_div_hover_after)
  with h have "unused_entry_of (''div:hover::after'', fs) \<in> set (find_unused_selectors a)"
    unfolding find_unused_selectors_eq by force
  then show "\<lparr>selector = ''div:hover::after'', files = fs,
         components = \<lparr>classes = {}, ids = {}, tags = {''div''}\<rparr>\<rparr>
          \<in> set (find_unused_selectors a)"
    by (simp add: unused_entry_of_def esc_div_hover_after)
qed

theorem div_hover_after_unused_witness:
  "\<lparr>selector = ''div:hover::after'', files = [''s.css''],
    components = \<lparr>classes = {}, ids = {}, tags = {''div''}\<rparr>\<rparr>
     \<in> set (find_unused_selectors scenario3)"
  using div_hover_after_unused [of "[''s.css'']" scenario3]
  by (simp add: scenario3_def)

text \<open>
  Claim C10. A selector text that is exactly one of \<open>not\<close>, \<open>is\<close>, \<open>where\<close>, \<open>has\<close> decomposes
  into three empty sets, and no entry of \<open>find_unused_selectors\<close> has it as its selector,
  whatever the usage facts are.
\<close>

theorem keyword_selector_never_unused:
  assumes "kw \<in> {''not'', ''is'', ''where'', ''has''}"
  shows "extract_selector_components kw = \<lparr>classes = {}, ids = {}, tags = {}\<rparr>
         \<and> kw \<notin> selector ` set (find_unused_selectors a)"
proof -
  from assms have empty: "extract_selector_components kw = \<lparr>classes = {}, ids = {}, tags = {}\<rparr>"
    by (auto simp: esc_keywords)
  then have "\<not> unused_by_spec a kw"
    by (simp add: unused_by_spec_def)
  then have "kw \<notin> selector ` set (find_unused_selectors a)"
    unfolding find_unused_selectors_eq by (auto simp: unused_entry_of_def)
  with empty show ?thesis by simp
qed

theorem keyword_selector_never_unused_witness:
  "''not'' \<in> {''not'', ''is'', ''where'', ''has''}
   \<and> extract_selector_components ''not'' = \<lparr>classes = {}, ids = {}, tags = {}\<rparr>
   \<and> ''not'' \<notin> selector ` set (find_unused_selectors keyword_rules)"
proof -
  have h: "''not'' \<in> {''not'', ''is'', ''where'', ''has''}" by simp
  show ?thesis
    using h keyword_selector_never_unused [OF h, of keyword_rules] by simp
qed

section \<open>Unused selectors\<close>

text \<open>
  Claim C2. For every rule index and usage fact base, \<open>find_unused_selectors\<close> returns, in
  the order of the index, exactly the selector records whose decomposition has a non-empty
  component set and shares no class name with \<open>html_classes\<close>, no id name with \<open>html_ids\<close>
  and no tag name with \<open>html_tags\<close>; each comes with its files and its decomposition. A
  selector whose three component sets are all empty is never in the output.
\<close>

theorem find_unused_selectors_exact:
  "find_unused_selectors a =
     map (\<lambda>(sel, fs). \<lparr>selector = sel, files = fs, components = extract_selector_components sel\<rparr>)
       (filter (\<lambda>(sel, fs). unused_by_spec a sel) (css_selectors a))
   \<and> (\<forall>e \<in> set (find_unused_selectors a).
         \<not> (classes (components e) = {} \<and> ids (components e) = {} \<and> tags (components e) = {}))"
proof
  show "find_unused_selectors a =
     map (\<lambda>(sel, fs). \<lparr>selector = sel, files = fs, components = extract_selector_components sel\<rparr>)
       (filter (\<lambda>(sel, fs). unused_by_spec a sel) (css_selectors a))"
  proof -
    have entry: "unused_entry_of =
        (\<lambda>(sel, fs). \<lparr>selector = sel, files = fs, components = extract_selector_components sel\<rparr>)"
      by (auto simp: unused_entry_of_def fun_eq_iff)
    have test: "(\<lambda>item. unused_by_spec a (fst item)) = (\<lambda>(sel, fs). unused_by_spec a sel)"
      by (auto simp: fun_eq_iff)
    show ?thesis
      unfolding find_unused_selectors_eq entry test ..
  qed
next
  show "\<forall>e \<in> set (find_unused_selectors a).
         \<not> (classes (components e) = {} \<and> ids (components e) = {} \<and> tags (components e) = {})"
    by (auto simp: find_unused_selectors_eq unused_entry_of_def unused_by_spec_def Let_def)
qed

theorem find_unused_selectors_exact_witness:
  "find_unused_selectors scenario1 =
     [\<lparr>selector = ''.missing'', files = [''s.css''],
       components = \<lparr>classes = {''missing''}, ids = {}, tags = {''missing''}\<rparr>\<rparr>]"
  using find_unused_selectors_exact [of scenario1]
  by (simp add: scenario1_def unused_by_spec_def esc_card esc_missing esc_star)

text \<open>
  Claim C7. With the rule index fixed, replacing each of \<open>html_classes\<close>, \<open>html_ids\<close> and
  \<open>html_tags\<close> by a subset of itself never removes an entry from the unused report: the
  report with the larger fact base is contained in the one with the smaller fact base.
\<close>

theorem find_unused_selectors_antitone:
  assumes "html_classes b \<subseteq> html_classes a"
    and "html_ids b \<subseteq> html_ids a"
    and "html_tags b \<subseteq> html_tags a"
    and "css_selectors b = css_selectors a"
  shows "set (find_unused_selectors a) \<subseteq> set (find_unused_selectors b)"
proof -
  have "unused_by_spec b sel" if "unused_by_spec a sel" for sel
    using that assms(1-3) unfolding unused_by_spec_def Let_def by blast
  then show ?thesis
    unfolding find_unused_selectors_eq assms(4) by auto
qed

theorem find_unused_selectors_antitone_witness:
  "set (find_unused_selectors scenario1)
     \<subseteq> set (find_unused_selectors (scenario1\<lparr>html_classes := {}, html_tags := {''p''}\<rparr>))
   \<and> \<lparr>selector = ''.card'', files = [''s.css''],
       components = \<lparr>classes = {''card''}, ids = {}, tags = {''card''}\<rparr>\<rparr>
     \<in> set (find_unused_selectors (scenario1\<lparr>html_classes := {}, html_tags := {''p''}\<rparr>))"
proof
  show "set (find_unused_selectors scenario1)
     \<subseteq> set (find_unused_selectors (scenario1\<lparr>html_classes := {}, html_tags := {''p''}\<rparr>))"
    by (rule find_unused_selectors_antitone) (simp_all add: scenario1_def)
next
  show "\<lparr>selector = ''.card'', files = [''s.css''],
       components = \<lparr>classes = {''card''}, ids = {}, tags = {''card''}\<rparr>\<rparr>
     \<in> set (find_unused_selectors (scenario1\<lparr>html_classes := {}, html_tags := {''p''}\<rparr>))"
    by (simp add: find_unused_selectors_eq scenario1_def unused_by_spec_def unused_entry_of_def
        esc_card esc_missing esc_star)
qed

section \<open>Duplicate selectors\<close>

text \<open>
  Claim C6. On the index built from a sequence of rules, \<open>find_duplicate_selectors\<close> reports
  exactly the selector texts that occur at least twice among the rules, each of them once;
  the count of an entry is the number of rules with that selector text, repeats within one
  file included, and its files are the files of those rules in input order.
\<close>

theorem find_duplicate_selectors_exact:
  "set (find_duplicate_selectors (parse_css_rules (init hdir cdir) rs)) =
     {\<lparr>dup_selector = sel, dup_count = count_list (map fst rs) sel,
       dup_files = map (\<lambda>(sel', css_text, css_file). css_file)
                     (filter (\<lambda>(sel', css_text, css_file). sel' = sel) rs)\<rparr>
      | sel. 2 \<le> count_list (map fst rs) sel}
   \<and> distinct (map dup_selector (find_duplicate_selectors (parse_css_rules (init hdir cdir) rs)))"
proof
  let ?kvs = "map (\<lambda>(sel, css_text, css_file). (sel, css_file)) rs"
  let ?occ = "\<lambda>sel. map (\<lambda>(sel', css_text, css_file). css_file)
                     (filter (\<lambda>(sel', css_text, css_file). sel' = sel) rs)"
  have index: "css_selectors (parse_css_rules (init hdir cdir) rs) = dict_extend [] ?kvs"
    by (simp add: css_selectors_parse_css_rules init_def)
  have len: "length (?occ sel) = count_list (map fst rs) sel" for sel
    using length_values_of_selector [of sel rs] by (simp add: values_of_selector)
  have member: "(sel, fs) \<in> set (dict_extend [] ?kvs) \<longleftrightarrow> fs = ?occ sel \<and> fs \<noteq> []" for sel fs
    by (simp add: dict_extend_member values_of_selector)
  show "set (find_duplicate_selectors (parse_css_rules (init hdir cdir) rs)) =
     {\<lparr>dup_selector = sel, dup_count = count_list (map fst rs) sel, dup_files = ?occ sel\<rparr>
      | sel. 2 \<le> count_list (map fst rs) sel}" (is "?L = ?R")
  proof (intro set_eqI iffI)
    fix e
    assume "e \<in> ?L"
    then obtain sel fs where item: "(sel, fs) \<in> set (dict_extend [] ?kvs)"
      and many: "1 < length fs" and e: "e = duplicate_selector_entry_of (sel, fs)"
      by (auto simp: find_duplicate_selectors_def duplicate_selectors_loop_eq index)
    from item have fs: "fs = ?occ sel" by (simp add: member)
    with many len [of sel] have "2 \<le> count_list (map fst rs) sel" by simp
    moreover from e fs len [of sel]
    have "e = \<lparr>dup_selector = sel, dup_count = count_list (map fst rs) sel, dup_files = ?occ sel\<rparr>"
      by (simp add: duplicate_selector_entry_of_def)
    ultimately show "e \<in> ?R" by blast
  next
    fix e
    assume "e \<in> ?R"
    then obtain sel where many: "2 \<le> count_list (map fst rs) sel"
      and e: "e = \<lparr>dup_selector = sel, dup_count = count_list (map fst rs) sel, dup_files = ?occ sel\<rparr>"
      by blast
    from many len [of sel] have long: "1 < length (?occ sel)" by simp
    then have "?occ sel \<noteq> []" by auto
    then have "(sel, ?occ sel) \<in> set (dict_extend [] ?kvs)" by (simp add: member)
    moreover from e len [of sel] have "e = duplicate_selector_entry_of (sel, ?occ sel)"
      by (simp add: duplicate_selector_entry_of_def)
    ultimately show "e \<in> ?L"
      using long
      by (force simp: find_duplicate_selectors_def duplicate_selectors_loop_eq index)
  qed
next
  have "distinct (map fst (css_selectors (parse_css_rules (init hdir cdir) rs)))"
    unfolding css_selectors_parse_css_rules
    by (rule dict_extend_distinct) (simp add: init_def)
  then have "distinct (map fst (filter (\<lambda>item. 1 < length (snd item))
                 (css_selectors (parse_css_rules (init hdir cdir) rs))))"
    by (rule distinct_map_filter_fst)
  moreover have "dup_selector \<circ> duplicate_selector_entry_of = fst"
    by (auto simp: fun_eq_iff duplicate_selector_entry_of_def)
  ultimately show
    "distinct (map dup_selector (find_duplicate_selectors (parse_css_rules (init hdir cdir) rs)))"
    by (simp add: find_duplicate_selectors_def duplicate_selectors_loop_eq)
qed

theorem find_duplicate_selectors_exact_witness:
  "find_duplicate_selectors (parse_css_rules (init ''site'' ''css'') repeated_rules) =
     [\<lparr>dup_selector = ''.btn'', dup_count = 3, dup_files = [''a.css'', ''a.css'', ''b.css'']\<rparr>]
   \<and> 2 \<le> count_list (map fst repeated_rules) ''.btn''
   \<and> \<lparr>dup_selector = ''.btn'', dup_count = 3, dup_files = [''a.css'', ''a.css'', ''b.css'']\<rparr>
       \<in> set (find_duplicate_selectors (parse_css_rules (init ''site'' ''css'') repeated_rules))"
proof -
  have run: "find_duplicate_selectors (parse_css_rules (init ''site'' ''css'') repeated_rules) =
     [\<lparr>dup_selector = ''.btn'', dup_count = 3, dup_files = [''a.css'', ''a.css'', ''b.css'']\<rparr>]"
    by (simp add: find_duplicate_selectors_def css_selectors_parse_css_rules dict_extend_def
        init_def repeated_rules_def)
  have many: "2 \<le> count_list (map fst repeated_rules) ''.btn''"
    by (simp add: repeated_rules_def)
  have "\<lparr>dup_selector = ''.btn'', dup_count = 3, dup_files = [''a.css'', ''a.css'', ''b.css'']\<rparr>
       \<in> {\<lparr>dup_selector = sel, dup_count = count_list (map fst repeated_rules) sel,
       dup_files = map (\<lambda>(sel', css_text, css_file). css_file)
                     (filter (\<lambda>(sel', css_text, css_file). sel' = sel) repeated_rules)\<rparr>
      | sel. 2 \<le> count_list (map fst repeated_rules) sel}"
    using many by (simp add: repeated_rules_def)
  then have "\<lparr>dup_selector = ''.btn'', dup_count = 3, dup_files = [''a.css'', ''a.css'', ''b.css'']\<rparr>
       \<in> set (find_duplicate_selectors (parse_css_rules (init ''site'' ''css'') repeated_rules))"
    using find_duplicate_selectors_exact [of "''site''" "''css''" repeated_rules] by simp
  with run many show ?thesis by simp
qed

section \<open>Duplicate rules\<close>

text \<open>
  Claim C4 says that two rules with the same selector whose declaration texts differ only
  by whitespace get the same key and are reported together. Normalization replaces a run of
  whitespace by one space and neither inserts nor removes a run, so a text with a space
  between two characters and the same text without it keep different keys: the
  declarations \<open>font-family: Open Sans\<close> and \<open>font-family: OpenSans\<close> under one selector
  differ by one space only, get different keys, and nothing is reported for them.
\<close>

theorem significant_space_not_merged:
  "hash_rule ''.btn'' ''font-family: Open Sans'' \<noteq> hash_rule ''.btn'' ''font-family: OpenSans''
   \<and> find_duplicate_rules
        (parse_css_rules (init ''site'' ''css'')
           [(''.btn'', ''font-family: Open Sans'', ''a.css''),
            (''.btn'', ''font-family: OpenSans'', ''b.css'')])
       = Inr []"
  by (simp add: two_rules_same_selector hash_rule_same_selector ws_tokens_examples)

text \<open>
  Claim C4, amended. Two rules with the same selector text get the same key exactly when
  the declaration texts handed to \<open>_hash_rule\<close> consist of the same whitespace-separated
  tokens, that is, when they are equal or differ only in how long and of which whitespace
  the runs between the tokens are and in whitespace at the two ends; then
  \<open>find_duplicate_rules\<close> reports them as one entry of count 2 with both locations in input
  order, and otherwise it reports nothing for them. Two rules with the same properties in
  another order get different keys and are not reported, both for the texts
  \<open>color:red;margin:0\<close> and \<open>margin:0;color:red\<close> and for the same declarations written
  one per line with a space behind each colon.
\<close>

theorem whitespace_runs_merged_order_kept:
  "(hash_rule sel d1 = hash_rule sel d2 \<longleftrightarrow> ws_tokens d1 = ws_tokens d2)
   \<and> (ws_tokens d1 = ws_tokens d2 \<longrightarrow>
        (\<exists>r. find_duplicate_rules
               (parse_css_rules (init hdir cdir) [(sel, d1, f1), (sel, d2, f2)])
              = Inr [\<lparr>rule = r, rule_count = 2, locations = [(f1, sel), (f2, sel)]\<rparr>]))
   \<and> (ws_tokens d1 \<noteq> ws_tokens d2 \<longrightarrow>
        find_duplicate_rules (parse_css_rules (init hdir cdir) [(sel, d1, f1), (sel, d2, f2)])
          = Inr [])
   \<and> hash_rule sel ''color:red;margin:0'' \<noteq> hash_rule sel ''margin:0;color:red''
   \<and> find_duplicate_rules
        (parse_css_rules (init hdir cdir)
           [(sel, ''color:red;margin:0'', f1), (sel, ''margin:0;color:red'', f2)])
       = Inr []
   \<and> hash_rule sel ''color: red;\<newline>margin: 0'' \<noteq> hash_rule sel ''margin: 0;\<newline>color: red''
   \<and> find_duplicate_rules
        (parse_css_rules (init hdir cdir)
           [(sel, ''color: red;\<newline>margin: 0'', f1), (sel, ''margin: 0;\<newline>color: red'', f2)])
       = Inr []"
  by (simp add: two_rules_same_selector hash_rule_same_selector ws_tokens_examples)

theorem whitespace_runs_merged_order_kept_witness:
  "ws_tokens ''color: red;\<newline>margin: 0'' = ws_tokens ''color: red; margin: 0''
   \<and> hash_rule ''.btn'' ''color: red;\<newline>margin: 0'' = hash_rule ''.btn'' ''color: red; margin: 0''
   \<and> (\<exists>r. find_duplicate_rules
             (parse_css_rules (init ''site'' ''css'')
                [(''.btn'', ''color: red;\<newline>margin: 0'', ''a.css''),
                 (''.btn'', ''color: red; margin: 0'', ''b.css'')])
            = Inr [\<lparr>rule = r, rule_count = 2,
                    locations = [(''a.css'', ''.btn''), (''b.css'', ''.btn'')]\<rparr>])
   \<and> (\<exists>r. find_duplicate_rules
             (parse_css_rules (init ''site'' ''css'')
                [(''.btn'', ''color: red'', ''a.css''), (''.btn'', ''color: red'', ''b.css'')])
            = Inr [\<lparr>rule = r, rule_count = 2,
                    locations = [(''a.css'', ''.btn''), (''b.css'', ''.btn'')]\<rparr>])"
proof -
  have h: "ws_tokens ''color: red;\<newline>margin: 0'' = ws_tokens ''color: red; margin: 0''"
    by (simp add: ws_tokens_examples)
  show ?thesis
    using h
      whitespace_runs_merged_order_kept
        [of "''.btn''" "''color: red;\<newline>margin: 0''" "''color: red; margin: 0''"
            "''site''" "''css''" "''a.css''" "''b.css''"]
      whitespace_runs_merged_order_kept
        [of "''.btn''" "''color: red''" "''color: red''" "''site''" "''css''" "''a.css''" "''b.css''"]
    by simp
qed

text \<open>
  Claim C5 says that the \<open>rule\<close> field of a reported entry is the full selector text of the
  grouped rules. The field is the part of the key in front of its first bar, which is the
  selector text only when that text has no bar: for two rules with the selector
  \<open>[lang|=en]\<close> the field is \<open>[lang\<close>.
\<close>

theorem rule_field_cut_at_bar:
  "find_duplicate_rules
     (parse_css_rules (init ''site'' ''css'')
        [(''[lang|=en]'', ''color: red'', ''a.css''), (''[lang|=en]'', ''color: red'', ''b.css'')])
    = Inr [\<lparr>rule = ''[lang'', rule_count = 2,
            locations = [(''a.css'', ''[lang|=en]''), (''b.css'', ''[lang|=en]'')]\<rparr>]"
  by (simp add: find_duplicate_rules_eq duplicate_rules_parse_css_rules dict_extend_def init_def
      duplicate_rule_entry_of_def hash_rule_lang)

section \<open>Totality\<close>

text \<open>
  Claim C8. Every function of the model is total: the scans are defined by recursion with
  a termination proof, and the one operation of the analysis that can raise, the index
  \<open>[0]\<close> into the result of \<open>split\<close>, never does. For every selector text the decomposition
  is three finite sets, empty for the empty text, for a text with unmatched brackets and
  for a text of combinators only. For every analyzer state the three reports are lists no
  longer than the index they read, empty for the empty index, and \<open>find_duplicate_rules\<close>
  returns a list and no error.
\<close>

theorem analysis_total:
  "finite (classes (extract_selector_components s))
   \<and> finite (ids (extract_selector_components s))
   \<and> finite (tags (extract_selector_components s))
   \<and> extract_selector_components '''' = \<lparr>classes = {}, ids = {}, tags = {}\<rparr>
   \<and> extract_selector_components '':not(['' = \<lparr>classes = {}, ids = {}, tags = {}\<rparr>
   \<and> extract_selector_components ''> + ~'' = \<lparr>classes = {}, ids = {}, tags = {}\<rparr>
   \<and> length (find_unused_selectors a) \<le> length (css_selectors a)
   \<and> length (find_duplicate_selectors a) \<le> length (css_selectors a)
   \<and> (\<exists>ds. find_duplicate_rules a = Inr ds \<and> length ds \<le> length (duplicate_rules a))
   \<and> find_unused_selectors (init hdir cdir) = []
   \<and> find_duplicate_selectors (init hdir cdir) = []
   \<and> find_duplicate_rules (init hdir cdir) = Inr []"
proof -
  have "finite (classes (extract_selector_components s))"
    and "finite (ids (extract_selector_components s))"
    and "finite (tags (extract_selector_components s))"
    by (simp_all add: extract_selector_components_def Let_def)
  moreover have "length (find_unused_selectors a) \<le> length (css_selectors a)"
    by (simp add: find_unused_selectors_eq)
  moreover have "length (find_duplicate_selectors a) \<le> length (css_selectors a)"
    by (simp add: find_duplicate_selectors_def duplicate_selectors_loop_eq)
  moreover have "\<exists>ds. find_duplicate_rules a = Inr ds \<and> length ds \<le> length (duplicate_rules a)"
    by (simp add: find_duplicate_rules_eq)
  moreover have "find_unused_selectors (init hdir cdir) = []"
    and "find_duplicate_selectors (init hdir cdir) = []"
    and "find_duplicate_rules (init hdir cdir) = Inr []"
    by (simp_all add: find_unused_selectors_def find_duplicate_selectors_def
        find_duplicate_rules_def init_def)
  ultimately show ?thesis
    by (simp add: esc_empty esc_unmatched esc_combinators)
qed

theorem analysis_total_witness:
  "finite (tags (extract_selector_components ''a:not(.b''))
   \<and> length (find_unused_selectors scenario1) \<le> 3
   \<and> (\<exists>ds. find_duplicate_rules scenario3 = Inr ds \<and> length ds \<le> 1)"
  using analysis_total [of "''a:not(.b''" scenario1 "''site''" "''css''"]
    analysis_total [of "''a:not(.b''" scenario3 "''site''" "''css''"]
  by (simp add: scenario1_def scenario3_def)

end
